theory Spec2Isabelle
  imports Complex_Main "HOL-Library.Multiset"
begin

section \<open>Edit model: \<open>Replacement\<close> (mentat/parsers/file\_edit.py)\<close>

text \<open>
  A \<open>Replacement\<close> says that the lines from \<open>starting_line\<close> (inclusive) to
  \<open>ending_line\<close> (exclusive) are replaced by \<open>new_lines\<close>. The fields are Python
  ints, so they are unbounded integers here, and nothing in the class checks
  \<open>0 \<le> starting_line \<le> ending_line\<close>.
\<close>

record replacement =
  starting_line :: int
  ending_line :: int
  new_lines :: "string list"

text \<open>
  \<open>Replacement.__lt__\<close>, as written: the tie-break compares
  \<open>self.starting_line\<close> with \<open>other.ending_line\<close>.
\<close>

definition replacement_lt :: "replacement \<Rightarrow> replacement \<Rightarrow> bool" where
  "replacement_lt self other \<longleftrightarrow>
     ending_line self < ending_line other \<or>
     (ending_line self = ending_line other \<and> starting_line self < ending_line other)"

section \<open>The list sort of the runtime\<close>

text \<open>
  \<open>self.replacements.sort(reverse=True)\<close> calls CPython's list sort, which only
  ever asks \<open>__lt__\<close>. For a list of fewer than 64 elements that sort (CPython 3.11,
  \<open>Objects/listobject.c\<close>) is: find the
  run at the front of the list (\<open>count_run\<close>), reverse it when it is strictly
  descending, then insert every further element by binary search into the sorted
  prefix (\<open>binarysort\<close>). With \<open>reverse=True\<close> the list is reversed before and after.
  The functions below follow that algorithm step by step, for any comparison
  \<open>lt\<close>, because \<open>Replacement.__lt__\<close> is not a strict order and the result then
  depends on which comparisons are made. Longer lists are merged run by run by the
  runtime; for them this model gives the same list whenever \<open>lt\<close> is a strict weak
  order on the elements (a stable sort is then unique).
\<close>

text \<open>Length of the strictly descending run that continues after \<open>prev\<close>.\<close>

fun desc_run :: "('a \<Rightarrow> 'a \<Rightarrow> bool) \<Rightarrow> 'a \<Rightarrow> 'a list \<Rightarrow> nat" where
  "desc_run lt prev [] = 0"
| "desc_run lt prev (x # xs) = (if lt x prev then Suc (desc_run lt x xs) else 0)"

text \<open>Length of the non-descending run that continues after \<open>prev\<close>.\<close>

fun asc_run :: "('a \<Rightarrow> 'a \<Rightarrow> bool) \<Rightarrow> 'a \<Rightarrow> 'a list \<Rightarrow> nat" where
  "asc_run lt prev [] = 0"
| "asc_run lt prev (x # xs) = (if lt x prev then 0 else Suc (asc_run lt x xs))"

text \<open>\<open>count_run\<close>: the length of the run at the front, and whether it descends.\<close>

fun count_run :: "('a \<Rightarrow> 'a \<Rightarrow> bool) \<Rightarrow> 'a list \<Rightarrow> nat \<times> bool" where
  "count_run lt [] = (0, False)"
| "count_run lt [x] = (1, False)"
| "count_run lt (x0 # x1 # xs) =
     (if lt x1 x0 then (2 + desc_run lt x1 xs, True)
      else (2 + asc_run lt x1 xs, False))"

text \<open>
  The binary search of \<open>binarysort\<close>: \<open>l\<close> and \<open>r\<close> close in on the place of
  \<open>pivot\<close> in the sorted prefix \<open>xs\<close>; the probe is \<open>p = l + ((r - l) >> 1)\<close>.
\<close>

function binary_search :: "('a \<Rightarrow> 'a \<Rightarrow> bool) \<Rightarrow> 'a \<Rightarrow> 'a list \<Rightarrow> nat \<Rightarrow> nat \<Rightarrow> nat" where
  "binary_search lt pivot xs l r =
     (if l < r then
        (let p = l + (r - l) div 2 in
         if lt pivot (xs ! p) then binary_search lt pivot xs l p
         else binary_search lt pivot xs (p + 1) r)
      else l)"
  by pat_completeness auto
termination
  by (relation "measure (\<lambda>(lt, pivot, xs, l, r). r - l)") auto

declare binary_search.simps [simp del]

definition binary_insert :: "('a \<Rightarrow> 'a \<Rightarrow> bool) \<Rightarrow> 'a \<Rightarrow> 'a list \<Rightarrow> 'a list" where
  "binary_insert lt pivot xs =
     (let l = binary_search lt pivot xs 0 (length xs) in take l xs @ [pivot] @ drop l xs)"

fun binarysort :: "('a \<Rightarrow> 'a \<Rightarrow> bool) \<Rightarrow> 'a list \<Rightarrow> 'a list \<Rightarrow> 'a list" where
  "binarysort lt sorted_prefix [] = sorted_prefix"
| "binarysort lt sorted_prefix (pivot # rest) =
     binarysort lt (binary_insert lt pivot sorted_prefix) rest"

definition list_sort :: "('a \<Rightarrow> 'a \<Rightarrow> bool) \<Rightarrow> 'a list \<Rightarrow> 'a list" where
  "list_sort lt xs =
     (if length xs < 2 then xs
      else
        (let (n, descending) = count_run lt xs;
             run = (if descending then rev (take n xs) else take n xs)
         in binarysort lt run (drop n xs)))"

text \<open>\<open>xs.sort(reverse=True)\<close>: reverse, sort ascending, reverse again.\<close>

definition list_sort_reverse :: "('a \<Rightarrow> 'a \<Rightarrow> bool) \<Rightarrow> 'a list \<Rightarrow> 'a list" where
  "list_sort_reverse lt xs = rev (list_sort lt (rev xs))"

definition sort_replacements :: "replacement list \<Rightarrow> replacement list" where
  "sort_replacements rs = list_sort_reverse replacement_lt rs"

text \<open>
  What the order sorts by. \<open>__lt__\<close> compares by \<open>ending_line\<close> first; among equal
  \<open>ending_line\<close>s its tie-break only tells whether \<open>self\<close> is non-empty
  (\<open>starting_line < ending_line\<close>), so it puts non-empty replacements below empty
  ones and says nothing more. \<open>sort_key\<close> is a number that grows with this order.
\<close>

definition sort_key :: "replacement \<Rightarrow> int" where
  "sort_key r = 2 * ending_line r + (if starting_line r < ending_line r then 0 else 1)"

section \<open>Conflict resolution: \<open>FileEdit.resolve_conflicts\<close>\<close>

record file_edit =
  file_path :: string
  replacements :: "replacement list"
  is_creation :: bool
  is_deletion :: bool
  rename_file_path :: "string option"

text \<open>The two tests of the inner loop, with the loop's names.\<close>

definition overlap_conflict :: "replacement \<Rightarrow> replacement \<Rightarrow> bool" where
  "overlap_conflict replacement other \<longleftrightarrow>
     ending_line other > starting_line replacement \<and>
     starting_line other < ending_line replacement"

definition insertion_conflict :: "replacement \<Rightarrow> replacement \<Rightarrow> bool" where
  "insertion_conflict replacement other \<longleftrightarrow>
     ending_line other = starting_line other \<and>
     ending_line replacement = starting_line replacement \<and>
     starting_line replacement = starting_line other"

text \<open>
  The body of the inner loop: what one \<open>replacement\<close> does to one later \<open>other\<close>.
  The two assignments are in the source's order, so the \<open>min\<close> reads the new
  \<open>ending_line\<close>. \<open>_print_resolution\<close> only prints, so the insertion branch
  leaves \<open>other\<close> as it is.
\<close>

definition resolve_pair :: "replacement \<Rightarrow> replacement \<Rightarrow> replacement" where
  "resolve_pair replacement other =
     (if overlap_conflict replacement other then
        (let other1 = other\<lparr>ending_line := starting_line replacement\<rparr>
         in other1\<lparr>starting_line := min (starting_line other1) (ending_line other1)\<rparr>)
      else if insertion_conflict replacement other then other
      else other)"

text \<open>
  The nested iteration. The outer loop takes the replacements in list order; the inner
  loop changes, in place, every replacement after the current one, so the outer loop
  later meets the changed objects. The replacements of a list are distinct objects.
\<close>

fun resolve_loop :: "replacement list \<Rightarrow> replacement list" where
  "resolve_loop [] = []"
| "resolve_loop (replacement # rest) =
     replacement # resolve_loop (map (resolve_pair replacement) rest)"

definition resolve_replacements :: "replacement list \<Rightarrow> replacement list" where
  "resolve_replacements rs = resolve_loop (sort_replacements rs)"

definition resolve_conflicts :: "file_edit \<Rightarrow> file_edit" where
  "resolve_conflicts fe = fe\<lparr>replacements := resolve_replacements (replacements fe)\<rparr>"

text \<open>The half-open range of lines a replacement covers, as a set.\<close>

definition line_range :: "replacement \<Rightarrow> int set" where
  "line_range r = {starting_line r ..< ending_line r}"

section \<open>The applier: \<open>FileEdit.get_updated_file_lines\<close>\<close>

datatype error = MentatError | KeyError | ValueError | ZeroDivisionError | TypeError

text \<open>
  Python's slices never raise: a negative bound counts from the end, and every bound is
  clamped to the list.
\<close>

definition slice_index :: "nat \<Rightarrow> int \<Rightarrow> nat" where
  "slice_index n i = (if i < 0 then nat (max 0 (i + int n)) else min (nat i) n)"

definition slice_to :: "'a list \<Rightarrow> int \<Rightarrow> 'a list" where
  "slice_to xs stop = take (slice_index (length xs) stop) xs"

definition slice_from :: "'a list \<Rightarrow> int \<Rightarrow> 'a list" where
  "slice_from xs start = drop (slice_index (length xs) start) xs"

text \<open>
  The loop over the sorted replacements; \<open>earliest_line\<close> is \<open>None\<close> before the first
  one and the \<open>starting_line\<close> of the previous one afterwards.
\<close>

fun apply_replacements ::
  "int option \<Rightarrow> string list \<Rightarrow> replacement list \<Rightarrow> error + string list" where
  "apply_replacements earliest_line file_lines [] = Inr file_lines"
| "apply_replacements earliest_line file_lines (replacement # rest) =
     (if (case earliest_line of None \<Rightarrow> False | Some el \<Rightarrow> ending_line replacement > el)
      then Inl MentatError
      else
        (let padded =
               (if ending_line replacement > int (length file_lines)
                then file_lines @
                     replicate (nat (ending_line replacement - int (length file_lines))) ''''
                else file_lines)
         in apply_replacements (Some (starting_line replacement))
              (slice_to padded (starting_line replacement) @ new_lines replacement @
               slice_from padded (ending_line replacement))
              rest))"

definition get_updated_file_lines :: "file_edit \<Rightarrow> string list \<Rightarrow> error + string list" where
  "get_updated_file_lines fe file_lines =
     apply_replacements None file_lines (sort_replacements (replacements fe))"

text \<open>
  The applier's check in the spec's words: going through the sorted list, some
  replacement's \<open>ending_line\<close> exceeds the smallest \<open>starting_line\<close> seen before it.
\<close>

fun residual_overlap_from :: "int \<Rightarrow> replacement list \<Rightarrow> bool" where
  "residual_overlap_from smallest [] = False"
| "residual_overlap_from smallest (r # rs) =
     (ending_line r > smallest \<or> residual_overlap_from (min smallest (starting_line r)) rs)"

fun residual_overlap :: "replacement list \<Rightarrow> bool" where
  "residual_overlap [] = False"
| "residual_overlap (r # rs) = residual_overlap_from (starting_line r) rs"

section \<open>The validity check: \<open>FileEdit.is_valid\<close>\<close>

text \<open>
  What the check reads: which paths exist on disk, the path relative to the git root
  (\<open>os.path.relpath\<close>), and the lines of the files in context
  (\<open>code_file_manager.file_lines\<close>).
\<close>

record environment =
  path_exists :: "string \<Rightarrow> bool"
  relpath :: "string \<Rightarrow> string"
  context_file_lines :: "string \<rightharpoonup> string list"

text \<open>
  The last part of the check: a rename onto a path that exists is cancelled, and the check
  still returns true. The result is the returned flag and the edit as the check leaves it.
\<close>

definition cancel_rename_to_existing :: "environment \<Rightarrow> file_edit \<Rightarrow> bool \<times> file_edit" where
  "cancel_rename_to_existing env self =
     (case rename_file_path self of
        None \<Rightarrow> (True, self)
      | Some rename_path \<Rightarrow>
          if path_exists env rename_path then (True, self\<lparr>rename_file_path := None\<rparr>)
          else (True, self))"

definition is_valid :: "environment \<Rightarrow> file_edit \<Rightarrow> bool \<times> file_edit" where
  "is_valid env self =
     (let rel_path = relpath env (file_path self) in
      if is_creation self then
        (if path_exists env (file_path self) then (False, self)
         else cancel_rename_to_existing env self)
      else
        (if \<not> path_exists env (file_path self) then (False, self)
         else if context_file_lines env rel_path = None then (False, self)
         else cancel_rename_to_existing env self))"



section \<open>The review: \<open>FileEdit.filter_replacements\<close>\<close>

text \<open>
  The user is the stream of their answers; every prompt shown is recorded, and the number
  of prompts shown so far says which answer comes next.
\<close>

datatype prompt =
  CreateFile | DeleteFile | RenameFile string | UpdateFile replacement

record user_input =
  answers :: "nat \<Rightarrow> bool"
  asked :: "prompt list"

definition ask_user_change :: "user_input \<Rightarrow> prompt \<Rightarrow> bool \<times> user_input" where
  "ask_user_change ui p = (answers ui (length (asked ui)), ui\<lparr>asked := asked ui @ [p]\<rparr>)"

text \<open>The loop over the replacements: the accepted ones, in order.\<close>

fun ask_replacements :: "user_input \<Rightarrow> replacement list \<Rightarrow> replacement list \<times> user_input" where
  "ask_replacements ui [] = ([], ui)"
| "ask_replacements ui (replacement # rest) =
     (let (keep, ui1) = ask_user_change ui (UpdateFile replacement);
          (new_replacements, ui2) = ask_replacements ui1 rest
      in (if keep then replacement # new_replacements else new_replacements, ui2))"

text \<open>From the rename prompt to the end.\<close>

definition filter_rename_and_replacements ::
  "user_input \<Rightarrow> file_edit \<Rightarrow> bool \<times> file_edit \<times> user_input" where
  "filter_rename_and_replacements ui self =
     (let (self1, ui1) =
            (case rename_file_path self of
               None \<Rightarrow> (self, ui)
             | Some p \<Rightarrow>
                 (let (yes, ui') = ask_user_change ui (RenameFile p)
                  in (if yes then self else self\<lparr>rename_file_path := None\<rparr>, ui')));
          (new_replacements, ui2) = ask_replacements ui1 (replacements self1);
          self2 = self1\<lparr>replacements := new_replacements\<rparr>
      in (is_creation self2 \<or> is_deletion self2 \<or> rename_file_path self2 \<noteq> None \<or>
          length (replacements self2) > 0,
          self2, ui2))"

text \<open>From the deletion prompt to the end.\<close>

definition filter_deletion ::
  "user_input \<Rightarrow> file_edit \<Rightarrow> bool \<times> file_edit \<times> user_input" where
  "filter_deletion ui self =
     (if is_deletion self then
        (let (yes, ui1) = ask_user_change ui DeleteFile
         in if \<not> yes then (False, self, ui1) else filter_rename_and_replacements ui1 self)
      else filter_rename_and_replacements ui self)"

definition filter_replacements ::
  "environment \<Rightarrow> user_input \<Rightarrow> file_edit \<Rightarrow> error + bool \<times> file_edit \<times> user_input" where
  "filter_replacements env ui self =
     (if is_creation self then
        (let (yes, ui1) = ask_user_change ui CreateFile
         in if \<not> yes then Inr (False, self, ui1) else Inr (filter_deletion ui1 self))
      else
        (case context_file_lines env (relpath env (file_path self)) of
           None \<Rightarrow> Inl KeyError
         | Some file_lines \<Rightarrow> Inr (filter_deletion ui self)))"

section \<open>The streaming printer (mentat/streaming\_printer.py)\<close>

record streaming_printer =
  strings_to_print :: "string list"
  chars_remaining :: int
  shutdown :: bool

definition init_printer :: streaming_printer where
  "init_printer = \<lparr>strings_to_print = [], chars_remaining = 0, shutdown = False\<rparr>"

text \<open>\<open>str.index\<close>: the first place where \<open>sub\<close> occurs in \<open>s\<close>, if there is one.\<close>

fun str_index :: "string \<Rightarrow> string \<Rightarrow> nat option" where
  "str_index [] sub = (if sub = [] then Some 0 else None)"
| "str_index (c # s) sub =
     (if take (length sub) (c # s) = sub then Some 0
      else map_option Suc (str_index s sub))"

text \<open>
  \<open>add_string\<close>; \<open>colored\<close> is the function of the termcolor library and stays a
  parameter. \<open>characters[0]\<close> and \<open>characters[-1]\<close> are the same element when the
  string has one character.
\<close>

definition add_string ::
  "(string \<Rightarrow> string \<Rightarrow> string) \<Rightarrow> string \<Rightarrow> string \<Rightarrow> string option \<Rightarrow>
   streaming_printer \<Rightarrow> error + streaming_printer" where
  "add_string colored string0 end_str color self =
     (if shutdown self then Inr self
      else if length string0 = 0 then Inr self
      else
        (let string = string0 @ end_str;
             colored_string = (case color of Some c \<Rightarrow> colored string c | None \<Rightarrow> string)
         in case str_index colored_string string of
              None \<Rightarrow> Inl ValueError
            | Some index \<Rightarrow>
                (let characters = map (\<lambda>c. [c]) string;
                     characters1 = characters[0 := take index colored_string @ characters ! 0];
                     last_index = length characters1 - 1;
                     characters2 = characters1[last_index :=
                        characters1 ! last_index @ drop (index + length string) colored_string]
                 in Inr (self\<lparr>strings_to_print := strings_to_print self @ characters2,
                              chars_remaining := chars_remaining self + int (length characters2)\<rparr>))))"

text \<open>
  \<open>sleep_time\<close>, with the floats read as reals; the division raises when
  \<open>chars_remaining + 1\<close> is zero.
\<close>

definition sleep_time :: "streaming_printer \<Rightarrow> error + real" where
  "sleep_time self =
     (let max_finish_time = 1;
          divisor = chars_remaining self + 1
      in if divisor = 0 then Inl ZeroDivisionError
         else
           (let required_sleep_time = max_finish_time / real_of_int divisor;
                max_sleep = (if shutdown self then 2 / 1000 else 6 / 1000);
                min_sleep = 2 / 1000
            in Inr (max (min max_sleep required_sleep_time) min_sleep)))"

definition wrap_it_up :: "streaming_printer \<Rightarrow> streaming_printer" where
  "wrap_it_up self = self\<lparr>shutdown := True\<rparr>"

text \<open>
  The part of one pass of the loop of \<open>print_lines\<close> that follows the shutdown test has
  two halves, with \<open>await stream.send\<close> between them: \<open>popleft\<close> takes the next
  string from the queue, if there is one, and \<open>count_sent\<close> is the
  \<open>chars_remaining -= 1\<close> that follows the send.
\<close>

definition popleft :: "streaming_printer \<Rightarrow> (string \<times> streaming_printer) option" where
  "popleft self =
     (case strings_to_print self of
        [] \<Rightarrow> None
      | next_string # queue \<Rightarrow> Some (next_string, self\<lparr>strings_to_print := queue\<rparr>))"

definition count_sent :: "streaming_printer \<Rightarrow> streaming_printer" where
  "count_sent self = self\<lparr>chars_remaining := chars_remaining self - 1\<rparr>"

text \<open>
  Both halves with nothing in between; the second component is what has been sent to the
  stream.
\<close>

definition dequeue_step ::
  "streaming_printer \<times> string list \<Rightarrow> streaming_printer \<times> string list" where
  "dequeue_step = (\<lambda>(self, sent).
     (case popleft self of
        None \<Rightarrow> (self, sent)
      | Some (next_string, self1) \<Rightarrow> (count_sent self1, sent @ [next_string])))"

text \<open>
  The loop of \<open>print_lines\<close>, run on its own (no other task changes the printer while it
  sleeps). It returns only through the \<open>break\<close> or an error of \<open>sleep_time\<close>; a loop
  that never returns is \<open>None\<close>.
\<close>

partial_function (option) print_lines ::
  "streaming_printer \<times> string list \<Rightarrow> (error + streaming_printer \<times> string list) option" where
  "print_lines state =
     (if shutdown (fst state) then Some (Inr state)
      else
        (let state1 = dequeue_step state
         in case sleep_time (fst state1) of
              Inl e \<Rightarrow> Some (Inl e)
            | Inr seconds \<Rightarrow> print_lines state1))"

text \<open>
  The states a printer can be in. The tasks are cooperative: the producer's
  \<open>add_string\<close> and \<open>wrap_it_up\<close> run as a whole, and can run while the drain task
  sleeps or while it waits in \<open>stream.send\<close>, between \<open>popleft\<close> and the decrement.
  The flag says whether the drain task is inside \<open>stream.send\<close>.
\<close>

inductive reachable ::
  "(string \<Rightarrow> string \<Rightarrow> string) \<Rightarrow> streaming_printer \<times> bool \<Rightarrow> bool"
  for colored :: "string \<Rightarrow> string \<Rightarrow> string" where
  reachable_init: "reachable colored (init_printer, False)"
| reachable_add_string:
    "reachable colored (self, sending) \<Longrightarrow>
     add_string colored string0 end_str color self = Inr self' \<Longrightarrow>
     reachable colored (self', sending)"
| reachable_wrap_it_up:
    "reachable colored (self, sending) \<Longrightarrow> reachable colored (wrap_it_up self, sending)"
| reachable_popleft:
    "reachable colored (self, False) \<Longrightarrow> \<not> shutdown self \<Longrightarrow>
     popleft self = Some (next_string, self') \<Longrightarrow> reachable colored (self', True)"
| reachable_count_sent:
    "reachable colored (self, True) \<Longrightarrow> reachable colored (count_sent self, False)"

section \<open>The sort reorders its input\<close>

lemma mset_take_drop: "mset (take n xs) + mset (drop n xs) = mset xs"
  by (metis append_take_drop_id mset_append)

lemma mset_binary_insert: "mset (binary_insert lt p xs) = add_mset p (mset xs)"
  by (simp add: binary_insert_def Let_def mset_take_drop)

lemma mset_binarysort: "mset (binarysort lt pre rest) = mset pre + mset rest"
  by (induction rest arbitrary: pre) (simp_all add: mset_binary_insert)

lemma mset_list_sort: "mset (list_sort lt xs) = mset xs"
  by (simp add: list_sort_def mset_binarysort mset_take_drop split: prod.splits)

lemma mset_list_sort_reverse: "mset (list_sort_reverse lt xs) = mset xs"
  by (simp add: list_sort_reverse_def mset_list_sort)

lemma sorted_wrt_symmetric_mset:
  assumes "\<And>a b. P a b \<Longrightarrow> P b a"
  shows "mset xs = mset ys \<Longrightarrow> sorted_wrt P xs \<Longrightarrow> sorted_wrt P ys"
proof (induction ys arbitrary: xs)
  case Nil
  then show ?case by simp
next
  case (Cons y ys)
  have "y \<in> set xs" using Cons.prems(1) by (metis list.set_intros(1) mset_eq_setD)
  then obtain as bs where xs: "xs = as @ y # bs" by (meson split_list)
  have m: "mset (as @ bs) = mset ys" using Cons.prems(1) by (simp add: xs)
  have s: "sorted_wrt P (as @ bs)" and y: "\<forall>z\<in>set (as @ bs). P y z"
    using Cons.prems(2) assms by (auto simp: xs sorted_wrt_append)
  have "sorted_wrt P ys" using Cons.IH[OF m s] .
  moreover have "set ys = set (as @ bs)" using m by (metis mset_eq_setD)
  ultimately show ?case using y by simp
qed

section \<open>The sort orders by every key the comparison respects\<close>

text \<open>
  Whenever the comparison respects a key in both directions (\<open>lt a b\<close> only if the key
  of \<open>a\<close> is at most that of \<open>b\<close>, and \<open>\<not> lt a b\<close> only if it is at least that of
  \<open>b\<close>), the sort returns its input ordered by that key, whatever else the comparison
  does. The binary search keeps the invariant of the source's comments: everything left
  of \<open>l\<close> is at most the pivot, everything from \<open>r\<close> on is at least the pivot.
\<close>

lemma binary_search_place:
  fixes k :: "'a \<Rightarrow> 'k::linorder"
  assumes lt_le: "\<And>a b. lt a b \<Longrightarrow> k a \<le> k b"
    and nlt_ge: "\<And>a b. \<not> lt a b \<Longrightarrow> k b \<le> k a"
    and srt: "sorted (map k xs)"
  shows "l \<le> r \<Longrightarrow> r \<le> length xs \<Longrightarrow>
         \<forall>i<l. k (xs ! i) \<le> k pivot \<Longrightarrow>
         \<forall>i. r \<le> i \<and> i < length xs \<longrightarrow> k pivot \<le> k (xs ! i) \<Longrightarrow>
         binary_search lt pivot xs l r \<le> length xs \<and>
         (\<forall>i<binary_search lt pivot xs l r. k (xs ! i) \<le> k pivot) \<and>
         (\<forall>i. binary_search lt pivot xs l r \<le> i \<and> i < length xs \<longrightarrow> k pivot \<le> k (xs ! i))"
proof (induction "r - l" arbitrary: l r rule: less_induct)
  case less
  have mono: "k (xs ! i) \<le> k (xs ! j)" if "i \<le> j" "j < length xs" for i j
    using sorted_nth_mono[OF srt, of i j] that by simp
  show ?case
  proof (cases "l < r")
    case False
    then have "binary_search lt pivot xs l r = l" by (simp add: binary_search.simps)
    moreover have "l = r" using False less.prems(1) by simp
    ultimately show ?thesis using less.prems by simp
  next
    case True
    define p where "p = l + (r - l) div 2"
    have pr: "l \<le> p" "p < r" "p < length xs" using True less.prems(2) by (auto simp: p_def)
    show ?thesis
    proof (cases "lt pivot (xs ! p)")
      case lt: True
      have eq: "binary_search lt pivot xs l r = binary_search lt pivot xs l p"
        using True lt by (subst binary_search.simps) (simp add: p_def Let_def)
      have above: "\<forall>i. p \<le> i \<and> i < length xs \<longrightarrow> k pivot \<le> k (xs ! i)"
      proof (intro allI impI)
        fix i assume i: "p \<le> i \<and> i < length xs"
        have "k pivot \<le> k (xs ! p)" using lt_le[OF lt] .
        also have "\<dots> \<le> k (xs ! i)" using mono[of p i] i by simp
        finally show "k pivot \<le> k (xs ! i)" .
      qed
      have "p - l < r - l" using pr by simp
      moreover have "p \<le> length xs" using pr by simp
      ultimately show ?thesis
        unfolding eq using less.hyps[of p l] pr(1) less.prems(3) above by blast
    next
      case nlt: False
      have eq: "binary_search lt pivot xs l r = binary_search lt pivot xs (p + 1) r"
        using True nlt by (subst binary_search.simps) (simp add: p_def Let_def)
      have below: "\<forall>i<p + 1. k (xs ! i) \<le> k pivot"
      proof (intro allI impI)
        fix i assume i: "i < p + 1"
        have "k (xs ! i) \<le> k (xs ! p)" using mono[of i p] i pr by simp
        also have "\<dots> \<le> k pivot" using nlt_ge[OF nlt] .
        finally show "k (xs ! i) \<le> k pivot" .
      qed
      have "r - (p + 1) < r - l" using pr by simp
      moreover have "p + 1 \<le> r" using pr by simp
      ultimately show ?thesis
        unfolding eq using less.hyps[of r "p + 1"] less.prems(2) less.prems(4) below by blast
    qed
  qed
qed

lemma sorted_binary_insert:
  fixes k :: "'a \<Rightarrow> 'k::linorder"
  assumes lt_le: "\<And>a b. lt a b \<Longrightarrow> k a \<le> k b"
    and nlt_ge: "\<And>a b. \<not> lt a b \<Longrightarrow> k b \<le> k a"
    and srt: "sorted (map k xs)"
  shows "sorted (map k (binary_insert lt pivot xs))"
proof -
  define m where "m = binary_search lt pivot xs 0 (length xs)"
  have place: "m \<le> length xs" "\<forall>i<m. k (xs ! i) \<le> k pivot"
    "\<forall>i. m \<le> i \<and> i < length xs \<longrightarrow> k pivot \<le> k (xs ! i)"
    using binary_search_place[of lt k xs 0 "length xs" pivot, OF lt_le nlt_ge srt]
    unfolding m_def by (meson le0 le_refl not_less not_less_zero)+
  have lo: "k x \<le> k pivot" if "x \<in> set (take m xs)" for x
  proof -
    from that obtain i where i: "i < length (take m xs)" "take m xs ! i = x"
      unfolding in_set_conv_nth by blast
    then have "i < m" "x = xs ! i" by simp_all
    then show ?thesis using place(2) by simp
  qed
  have hi: "k pivot \<le> k x" if "x \<in> set (drop m xs)" for x
  proof -
    from that obtain i where i: "i < length (drop m xs)" "drop m xs ! i = x"
      unfolding in_set_conv_nth by blast
    then have "m + i < length xs" "x = xs ! (m + i)" using place(1) by simp_all
    then show ?thesis using place(3) by simp
  qed
  have st: "sorted (map k (take m xs))" and sd: "sorted (map k (drop m xs))"
    using srt by (simp_all add: sorted_map sorted_wrt_take sorted_wrt_drop)
  have "sorted (map k (take m xs) @ [k pivot] @ map k (drop m xs))"
    using st sd lo hi by (auto simp: sorted_append intro: order_trans)
  then show ?thesis by (simp add: binary_insert_def Let_def m_def)
qed

lemma sorted_binarysort:
  fixes k :: "'a \<Rightarrow> 'k::linorder"
  assumes lt_le: "\<And>a b. lt a b \<Longrightarrow> k a \<le> k b"
    and nlt_ge: "\<And>a b. \<not> lt a b \<Longrightarrow> k b \<le> k a"
  shows "sorted (map k pre) \<Longrightarrow> sorted (map k (binarysort lt pre rest))"
proof (induction rest arbitrary: pre)
  case Nil
  then show ?case by simp
next
  case (Cons p rest)
  have "sorted (map k (binary_insert lt p pre))"
    using sorted_binary_insert[of lt k pre p, OF lt_le nlt_ge Cons.prems] .
  then show ?case using Cons.IH by simp
qed

lemma sorted_asc_run:
  fixes k :: "'a \<Rightarrow> 'k::linorder"
  assumes nlt_ge: "\<And>a b. \<not> lt a b \<Longrightarrow> k b \<le> k a"
  shows "sorted (map k (p # take (asc_run lt p xs) xs))"
proof (induction xs arbitrary: p)
  case Nil
  then show ?case by simp
next
  case (Cons x xs)
  show ?case
  proof (cases "lt x p")
    case True
    then show ?thesis by simp
  next
    case False
    have "k p \<le> k x" using nlt_ge[OF False] .
    then show ?thesis using False Cons.IH[of x] by (simp del: sorted_wrt.simps add: sorted2)
  qed
qed

lemma sorted_desc_run:
  fixes k :: "'a \<Rightarrow> 'k::linorder"
  assumes lt_le: "\<And>a b. lt a b \<Longrightarrow> k a \<le> k b"
  shows "sorted (map k (rev (p # take (desc_run lt p xs) xs)))"
proof (induction xs arbitrary: p)
  case Nil
  then show ?case by simp
next
  case (Cons x xs)
  show ?case
  proof (cases "lt x p")
    case False
    then show ?thesis by simp
  next
    case True
    have xp: "k x \<le> k p" using lt_le[OF True] .
    have ih: "sorted (map k (rev (x # take (desc_run lt x xs) xs)))" using Cons.IH[of x] .
    have "\<forall>y\<in>set (map k (rev (x # take (desc_run lt x xs) xs))). y \<le> k x"
      using ih by (simp add: sorted_append)
    then have "\<forall>y\<in>set (map k (rev (x # take (desc_run lt x xs) xs))). y \<le> k p"
      using xp by (meson order_trans)
    then have "sorted (map k (rev (x # take (desc_run lt x xs) xs)) @ [k p])"
      using ih by (subst sorted_append) simp
    then show ?thesis using True by simp
  qed
qed

lemma sorted_list_sort:
  fixes k :: "'a \<Rightarrow> 'k::linorder"
  assumes lt_le: "\<And>a b. lt a b \<Longrightarrow> k a \<le> k b"
    and nlt_ge: "\<And>a b. \<not> lt a b \<Longrightarrow> k b \<le> k a"
  shows "sorted (map k (list_sort lt xs))"
proof (cases xs)
  case Nil
  then show ?thesis by (simp add: list_sort_def)
next
  case (Cons x0 ys)
  show ?thesis
  proof (cases ys)
    case Nil
    then show ?thesis using Cons by (simp add: list_sort_def)
  next
    case (Cons x1 zs)
    have xs: "xs = x0 # x1 # zs" using \<open>xs = x0 # ys\<close> Cons by simp
    show ?thesis
    proof (cases "lt x1 x0")
      case True
      have "sorted (map k (rev (x0 # take (Suc (desc_run lt x1 zs)) (x1 # zs))))"
        using sorted_desc_run[of lt k x0 "x1 # zs", OF lt_le] True by simp
      then have "sorted (map k (binarysort lt
          (rev (x0 # take (Suc (desc_run lt x1 zs)) (x1 # zs))) (drop (desc_run lt x1 zs) zs)))"
        using sorted_binarysort[of lt k, OF lt_le nlt_ge] by blast
      then show ?thesis using True by (simp add: list_sort_def xs)
    next
      case False
      have "sorted (map k (x0 # take (Suc (asc_run lt x1 zs)) (x1 # zs)))"
        using sorted_asc_run[of lt k x0 "x1 # zs", OF nlt_ge] False by simp
      then have "sorted (map k (binarysort lt
          (x0 # take (Suc (asc_run lt x1 zs)) (x1 # zs)) (drop (asc_run lt x1 zs) zs)))"
        using sorted_binarysort[of lt k, OF lt_le nlt_ge] by blast
      then show ?thesis using False by (simp add: list_sort_def xs)
    qed
  qed
qed

lemma sorted_list_sort_reverse:
  fixes k :: "'a \<Rightarrow> 'k::linorder"
  assumes lt_le: "\<And>a b. lt a b \<Longrightarrow> k a \<le> k b"
    and nlt_ge: "\<And>a b. \<not> lt a b \<Longrightarrow> k b \<le> k a"
  shows "sorted_wrt (\<lambda>a b. k b \<le> k a) (list_sort_reverse lt xs)"
proof -
  have "sorted_wrt (\<lambda>a b. k a \<le> k b) (list_sort lt (rev xs))"
    using sorted_list_sort[of lt k "rev xs", OF lt_le nlt_ge] by (simp add: sorted_map)
  then show ?thesis by (simp add: list_sort_reverse_def sorted_wrt_rev)
qed

section \<open>The order on replacements\<close>

text \<open>
  \<open>Replacement.__lt__\<close> respects \<open>sort_key\<close>, and so \<open>ending_line\<close>, for all
  replacements: the descending sort returns the list with \<open>ending_line\<close> descending
  and, among equal \<open>ending_line\<close>s, the empty replacements first.
\<close>

lemma replacement_lt_sort_key:
  "replacement_lt a b \<Longrightarrow> sort_key a \<le> sort_key b"
  "\<not> replacement_lt a b \<Longrightarrow> sort_key b \<le> sort_key a"
  by (auto simp: replacement_lt_def sort_key_def split: if_splits)

lemma replacement_lt_ending_line:
  "replacement_lt a b \<Longrightarrow> ending_line a \<le> ending_line b"
  "\<not> replacement_lt a b \<Longrightarrow> ending_line b \<le> ending_line a"
  by (auto simp: replacement_lt_def)

lemma sort_replacements_by_key:
  "sorted_wrt (\<lambda>a b. sort_key b \<le> sort_key a) (sort_replacements rs)"
  unfolding sort_replacements_def
  using sorted_list_sort_reverse[of replacement_lt sort_key rs] replacement_lt_sort_key
  by blast

lemma sort_replacements_by_ending_line:
  "sorted_wrt (\<lambda>a b. ending_line b \<le> ending_line a) (sort_replacements rs)"
  unfolding sort_replacements_def
  using sorted_list_sort_reverse[of replacement_lt ending_line rs] replacement_lt_ending_line
  by blast

lemma set_sort_replacements: "set (sort_replacements rs) = set rs"
  using mset_list_sort_reverse[of replacement_lt rs]
  by (metis sort_replacements_def mset_eq_setD)

text \<open>
  Claim C3. The claim: of two replacements with the same \<open>ending_line\<close>, the one with the
  larger \<open>starting_line\<close> sorts first in the descending sort. On the code, with
  \<open>a = [3, 5)\<close> and \<open>b = [1, 5)\<close> in the list \<open>[a, b]\<close>: \<open>a < b\<close> holds, because the
  tie-break compares \<open>a\<close>'s \<open>starting_line\<close> 3 with \<open>b\<close>'s \<open>ending_line\<close> 5, and
  the descending sort puts \<open>b\<close> before \<open>a\<close>.
\<close>

theorem replacement_lt_equal_end_sorts_later_start_last:
  "replacement_lt \<lparr>starting_line = 3, ending_line = 5, new_lines = []\<rparr>
                  \<lparr>starting_line = 1, ending_line = 5, new_lines = []\<rparr> \<and>
   sort_replacements
     [\<lparr>starting_line = 3, ending_line = 5, new_lines = []\<rparr>,
      \<lparr>starting_line = 1, ending_line = 5, new_lines = []\<rparr>] =
     [\<lparr>starting_line = 1, ending_line = 5, new_lines = []\<rparr>,
      \<lparr>starting_line = 3, ending_line = 5, new_lines = []\<rparr>]"
  by (simp add: sort_replacements_def list_sort_reverse_def list_sort_def replacement_lt_def)

section \<open>Conflict resolution\<close>

text \<open>
  After the loop has passed a replacement, no later replacement conflicts with it, and
  cutting a later replacement at the start of another one that does not conflict either
  never brings the conflict back. So the resolved list has no conflicting pair, in any
  order, and the loop changes nothing on such a list.
\<close>

lemma overlap_conflict_sym: "overlap_conflict a b \<Longrightarrow> overlap_conflict b a"
  by (auto simp: overlap_conflict_def)

lemma resolve_pair_no_conflict: "\<not> overlap_conflict r (resolve_pair r other)"
  by (auto simp: resolve_pair_def overlap_conflict_def Let_def)

lemma resolve_pair_keeps_no_conflict:
  assumes "\<not> overlap_conflict q r" and "\<not> overlap_conflict q other"
  shows "\<not> overlap_conflict q (resolve_pair r other)"
proof (cases "overlap_conflict r other")
  case False
  then show ?thesis using assms(2) by (simp add: resolve_pair_def)
next
  case True
  have fields: "ending_line (resolve_pair r other) = starting_line r"
    "starting_line (resolve_pair r other) = min (starting_line other) (starting_line r)"
    using True by (simp_all add: resolve_pair_def Let_def)
  have "ending_line other > starting_line r" "starting_line other < ending_line r"
    using True by (simp_all add: overlap_conflict_def)
  moreover have "ending_line r \<le> starting_line q \<or> ending_line q \<le> starting_line r"
    using assms(1) by (auto simp: overlap_conflict_def)
  moreover have "ending_line other \<le> starting_line q \<or> ending_line q \<le> starting_line other"
    using assms(2) by (auto simp: overlap_conflict_def)
  ultimately have
    "starting_line r \<le> starting_line q \<or>
     ending_line q \<le> min (starting_line other) (starting_line r)"
    by linarith
  then show ?thesis by (auto simp: overlap_conflict_def fields)
qed

lemma resolve_loop_keeps_no_conflict:
  "\<forall>x\<in>set xs. \<not> overlap_conflict q x \<Longrightarrow>
   \<forall>y\<in>set (resolve_loop xs). \<not> overlap_conflict q y"
proof (induction xs rule: resolve_loop.induct)
  case 1
  then show ?case by simp
next
  case (2 r rest)
  have qr: "\<not> overlap_conflict q r" and qrest: "\<And>x. x \<in> set rest \<Longrightarrow> \<not> overlap_conflict q x"
    using "2.prems" by simp_all
  have "\<forall>x\<in>set (map (resolve_pair r) rest). \<not> overlap_conflict q x"
  proof
    fix x assume "x \<in> set (map (resolve_pair r) rest)"
    then obtain y where "y \<in> set rest" "x = resolve_pair r y" by auto
    then show "\<not> overlap_conflict q x"
      using resolve_pair_keeps_no_conflict[OF qr qrest] by simp
  qed
  then have "\<forall>y\<in>set (resolve_loop (map (resolve_pair r) rest)). \<not> overlap_conflict q y"
    by (rule "2.IH")
  then show ?case using qr by simp
qed

lemma resolve_loop_no_conflict:
  "sorted_wrt (\<lambda>a b. \<not> overlap_conflict a b) (resolve_loop xs)"
proof (induction xs rule: resolve_loop.induct)
  case 1
  then show ?case by simp
next
  case (2 r rest)
  have "\<forall>x\<in>set (map (resolve_pair r) rest). \<not> overlap_conflict r x"
    by (simp add: resolve_pair_no_conflict)
  then have "\<forall>y\<in>set (resolve_loop (map (resolve_pair r) rest)). \<not> overlap_conflict r y"
    by (rule resolve_loop_keeps_no_conflict)
  then show ?case using "2.IH" by simp
qed

lemma no_conflict_disjoint:
  "\<not> overlap_conflict a b \<Longrightarrow> line_range a \<inter> line_range b = {}"
  by (auto simp: overlap_conflict_def line_range_def)

lemma resolve_pair_id: "\<not> overlap_conflict r other \<Longrightarrow> resolve_pair r other = other"
  by (simp add: resolve_pair_def)

lemma resolve_loop_id:
  "sorted_wrt (\<lambda>a b. \<not> overlap_conflict a b) zs \<Longrightarrow> resolve_loop zs = zs"
proof (induction zs)
  case Nil
  then show ?case by simp
next
  case (Cons r rest)
  have "map (resolve_pair r) rest = rest"
    using Cons.prems by (simp add: map_idI resolve_pair_id)
  then show ?case using Cons by simp
qed

lemma no_conflict_sort_replacements:
  "sorted_wrt (\<lambda>a b. \<not> overlap_conflict a b) xs \<Longrightarrow>
   sorted_wrt (\<lambda>a b. \<not> overlap_conflict a b) (sort_replacements xs)"
proof (rule sorted_wrt_symmetric_mset)
  show "mset xs = mset (sort_replacements xs)"
    by (simp add: sort_replacements_def mset_list_sort_reverse)
qed (auto dest: overlap_conflict_sym)

text \<open>
  Claim C1. For every list of replacements, after \<open>resolve_conflicts\<close> no two
  replacements of the list overlap: the half-open line ranges of any two of them have an
  empty intersection. Resolution is idempotent: a second \<open>resolve_conflicts\<close> on the
  resolved edit sorts the list again and its loop then changes no replacement, so the
  result is the resolved list, reordered by the sort, with every \<open>starting_line\<close>,
  \<open>ending_line\<close> and \<open>new_lines\<close> as it was.
\<close>

theorem resolve_conflicts_disjoint_idempotent:
  fixes fe :: file_edit
  defines "resolved \<equiv> replacements (resolve_conflicts fe)"
  shows "(\<forall>i j. i < j \<and> j < length resolved \<longrightarrow>
            line_range (resolved ! i) \<inter> line_range (resolved ! j) = {}) \<and>
         replacements (resolve_conflicts (resolve_conflicts fe)) = sort_replacements resolved \<and>
         mset (sort_replacements resolved) = mset resolved"
proof -
  have nc: "sorted_wrt (\<lambda>a b. \<not> overlap_conflict a b) resolved"
    by (simp add: resolved_def resolve_conflicts_def resolve_replacements_def
        resolve_loop_no_conflict)
  have "line_range (resolved ! i) \<inter> line_range (resolved ! j) = {}"
    if "i < j" "j < length resolved" for i j
    using nc that by (simp add: sorted_wrt_iff_nth_less no_conflict_disjoint)
  moreover have "resolve_loop (sort_replacements resolved) = sort_replacements resolved"
    using nc by (intro resolve_loop_id no_conflict_sort_replacements)
  then have "replacements (resolve_conflicts (resolve_conflicts fe)) = sort_replacements resolved"
    by (simp add: resolved_def resolve_conflicts_def resolve_replacements_def)
  moreover have "mset (sort_replacements resolved) = mset resolved"
    by (simp add: sort_replacements_def mset_list_sort_reverse)
  ultimately show ?thesis by blast
qed

theorem resolve_conflicts_disjoint_idempotent_witness:
  "replacements (resolve_conflicts
      \<lparr>file_path = ''a.py'',
       replacements =
         [\<lparr>starting_line = 6, ending_line = 10, new_lines = [''x'']\<rparr>,
          \<lparr>starting_line = 0, ending_line = 9, new_lines = [''y'']\<rparr>,
          \<lparr>starting_line = 7, ending_line = 8, new_lines = [''z'']\<rparr>],
       is_creation = False, is_deletion = False, rename_file_path = None\<rparr>) =
     [\<lparr>starting_line = 6, ending_line = 10, new_lines = [''x'']\<rparr>,
      \<lparr>starting_line = 0, ending_line = 6, new_lines = [''y'']\<rparr>,
      \<lparr>starting_line = 6, ending_line = 6, new_lines = [''z'']\<rparr>] \<and>
   line_range \<lparr>starting_line = 0, ending_line = 6, new_lines = [''y'']\<rparr> \<inter>
   line_range \<lparr>starting_line = 6, ending_line = 6, new_lines = [''z'']\<rparr> = {} \<and>
   replacements (resolve_conflicts (resolve_conflicts
      \<lparr>file_path = ''a.py'',
       replacements =
         [\<lparr>starting_line = 6, ending_line = 10, new_lines = [''x'']\<rparr>,
          \<lparr>starting_line = 0, ending_line = 9, new_lines = [''y'']\<rparr>,
          \<lparr>starting_line = 7, ending_line = 8, new_lines = [''z'']\<rparr>],
       is_creation = False, is_deletion = False, rename_file_path = None\<rparr>)) =
     [\<lparr>starting_line = 6, ending_line = 10, new_lines = [''x'']\<rparr>,
      \<lparr>starting_line = 6, ending_line = 6, new_lines = [''z'']\<rparr>,
      \<lparr>starting_line = 0, ending_line = 6, new_lines = [''y'']\<rparr>]"
  using resolve_conflicts_disjoint_idempotent
    [of "\<lparr>file_path = ''a.py'',
       replacements =
         [\<lparr>starting_line = 6, ending_line = 10, new_lines = [''x'']\<rparr>,
          \<lparr>starting_line = 0, ending_line = 9, new_lines = [''y'']\<rparr>,
          \<lparr>starting_line = 7, ending_line = 8, new_lines = [''z'']\<rparr>],
       is_creation = False, is_deletion = False, rename_file_path = None\<rparr>"]
  by (simp add: resolve_conflicts_def resolve_replacements_def sort_replacements_def
      list_sort_reverse_def list_sort_def binary_insert_def binary_search.simps
      replacement_lt_def resolve_pair_def overlap_conflict_def line_range_def Let_def)

text \<open>
  Claim C4 as stated fails: for the replacements \<open>[0, 5)\<close> and \<open>[3, 8)\<close> the
  resolved list is not \<open>[0, 5)\<close> with \<open>[3, 3)\<close>, in either order.
\<close>

theorem resolve_conflicts_0_5_and_3_8_counterexample:
  "replacements (resolve_conflicts
      \<lparr>file_path = ''a.py'',
       replacements =
         [\<lparr>starting_line = 0, ending_line = 5, new_lines = [''x'']\<rparr>,
          \<lparr>starting_line = 3, ending_line = 8, new_lines = [''y'']\<rparr>],
       is_creation = False, is_deletion = False, rename_file_path = None\<rparr>) \<noteq>
     [\<lparr>starting_line = 0, ending_line = 5, new_lines = [''x'']\<rparr>,
      \<lparr>starting_line = 3, ending_line = 3, new_lines = [''y'']\<rparr>] \<and>
   replacements (resolve_conflicts
      \<lparr>file_path = ''a.py'',
       replacements =
         [\<lparr>starting_line = 0, ending_line = 5, new_lines = [''x'']\<rparr>,
          \<lparr>starting_line = 3, ending_line = 8, new_lines = [''y'']\<rparr>],
       is_creation = False, is_deletion = False, rename_file_path = None\<rparr>) \<noteq>
     [\<lparr>starting_line = 3, ending_line = 3, new_lines = [''y'']\<rparr>,
      \<lparr>starting_line = 0, ending_line = 5, new_lines = [''x'']\<rparr>]"
  by (simp add: resolve_conflicts_def resolve_replacements_def sort_replacements_def
      list_sort_reverse_def list_sort_def replacement_lt_def resolve_pair_def
      overlap_conflict_def Let_def)

text \<open>
  Claim C4, amended. For a \<open>FileEdit\<close> whose replacement list holds exactly the two
  replacements \<open>[0, 5)\<close> and \<open>[3, 8)\<close>, in either order, \<open>resolve_conflicts\<close> yields
  \<open>[3, 8)\<close> followed by \<open>[0, 3)\<close>: the replacement that sorts first, \<open>[3, 8)\<close>, is
  kept intact and \<open>[0, 5)\<close> is cut to end where \<open>[3, 8)\<close> starts; the new lines of
  both are kept.
\<close>

theorem resolve_conflicts_0_5_and_3_8:
  "replacements (resolve_conflicts
      (fe\<lparr>replacements :=
         [\<lparr>starting_line = 0, ending_line = 5, new_lines = a\<rparr>,
          \<lparr>starting_line = 3, ending_line = 8, new_lines = b\<rparr>]\<rparr>)) =
     [\<lparr>starting_line = 3, ending_line = 8, new_lines = b\<rparr>,
      \<lparr>starting_line = 0, ending_line = 3, new_lines = a\<rparr>] \<and>
   replacements (resolve_conflicts
      (fe\<lparr>replacements :=
         [\<lparr>starting_line = 3, ending_line = 8, new_lines = b\<rparr>,
          \<lparr>starting_line = 0, ending_line = 5, new_lines = a\<rparr>]\<rparr>)) =
     [\<lparr>starting_line = 3, ending_line = 8, new_lines = b\<rparr>,
      \<lparr>starting_line = 0, ending_line = 3, new_lines = a\<rparr>]"
  by (simp add: resolve_conflicts_def resolve_replacements_def sort_replacements_def
      list_sort_reverse_def list_sort_def replacement_lt_def resolve_pair_def
      overlap_conflict_def Let_def)

section \<open>The applier\<close>

text \<open>
  The loop of the applier returns lines exactly when every replacement of the sorted list
  ends at or before the line where the one before it starts; its only error is
  \<open>MentatError\<close>.
\<close>

lemma apply_replacements_only_mentat_error:
  "apply_replacements earliest_line file_lines zs = Inl err \<Longrightarrow> err = MentatError"
  by (induction zs arbitrary: earliest_line file_lines) (auto simp: Let_def split: if_splits)

lemma apply_replacements_succeeds_iff:
  "(\<exists>out. apply_replacements earliest_line file_lines zs = Inr out) \<longleftrightarrow>
   (case zs of [] \<Rightarrow> True
    | r # _ \<Rightarrow> (case earliest_line of None \<Rightarrow> True | Some el \<Rightarrow> ending_line r \<le> el)) \<and>
   successively (\<lambda>r other. ending_line other \<le> starting_line r) zs"
proof (induction zs arbitrary: earliest_line file_lines)
  case Nil
  show ?case by simp
next
  case (Cons r rest)
  show ?case
  proof (cases "case earliest_line of None \<Rightarrow> False | Some el \<Rightarrow> ending_line r > el")
    case True
    then show ?thesis by (auto split: option.splits)
  next
    case False
    then have guard: "case earliest_line of None \<Rightarrow> True | Some el \<Rightarrow> ending_line r \<le> el"
      by (auto split: option.splits)
    obtain lines1 where step: "apply_replacements earliest_line file_lines (r # rest) =
        apply_replacements (Some (starting_line r)) lines1 rest"
      using False by (simp add: Let_def)
    have "(\<exists>out. apply_replacements earliest_line file_lines (r # rest) = Inr out) \<longleftrightarrow>
        (case rest of [] \<Rightarrow> True | r' # _ \<Rightarrow> ending_line r' \<le> starting_line r) \<and>
        successively (\<lambda>r other. ending_line other \<le> starting_line r) rest"
      unfolding step using Cons.IH[of "Some (starting_line r)" lines1]
      by (simp split: list.splits)
    also have "\<dots> \<longleftrightarrow> successively (\<lambda>r other. ending_line other \<le> starting_line r) (r # rest)"
      by (cases rest) simp_all
    finally show ?thesis using guard by simp
  qed
qed

lemma no_conflict_in_sort_order:
  assumes "\<not> overlap_conflict r other" and "sort_key other \<le> sort_key r"
    and "starting_line other \<le> ending_line other"
  shows "ending_line other \<le> starting_line r"
  using assms by (auto simp: overlap_conflict_def sort_key_def split: if_splits)

lemma no_conflict_chain:
  "sorted_wrt (\<lambda>a b. \<not> overlap_conflict a b) zs \<Longrightarrow>
   sorted_wrt (\<lambda>a b. sort_key b \<le> sort_key a) zs \<Longrightarrow>
   \<forall>r\<in>set zs. starting_line r \<le> ending_line r \<Longrightarrow>
   sorted_wrt (\<lambda>r other. ending_line other \<le> starting_line r) zs"
  by (induction zs) (auto intro: no_conflict_in_sort_order)

lemma chain_reaches_all:
  "successively (\<lambda>r other. ending_line other \<le> starting_line r) zs \<Longrightarrow>
   sorted_wrt (\<lambda>a b. ending_line b \<le> ending_line a) zs \<Longrightarrow>
   sorted_wrt (\<lambda>r other. ending_line other \<le> starting_line r) zs"
proof (induction zs)
  case Nil
  show ?case by simp
next
  case (Cons z rest)
  have rest: "sorted_wrt (\<lambda>r other. ending_line other \<le> starting_line r) rest"
    using Cons by (auto simp: successively_Cons)
  have "ending_line other \<le> starting_line z" if "other \<in> set rest" for other
  proof (cases rest)
    case Nil
    then show ?thesis using that by simp
  next
    case (Cons z' rest')
    have first: "ending_line z' \<le> starting_line z"
      using Cons.prems(1) Cons by simp
    have "ending_line other \<le> ending_line z'"
      using that Cons.prems(2) Cons by auto
    then show ?thesis using first by simp
  qed
  then show ?case using rest by simp
qed

lemma no_residual_overlap_from:
  "\<forall>other\<in>set rs. ending_line other \<le> smallest \<Longrightarrow>
   sorted_wrt (\<lambda>r other. ending_line other \<le> starting_line r) rs \<Longrightarrow>
   \<not> residual_overlap_from smallest rs"
proof (induction rs arbitrary: smallest)
  case Nil
  show ?case by simp
next
  case (Cons r rs)
  have "\<forall>other\<in>set rs. ending_line other \<le> min smallest (starting_line r)"
    using Cons.prems by simp
  then have "\<not> residual_overlap_from (min smallest (starting_line r)) rs"
    using Cons.IH Cons.prems(2) by simp
  moreover have "ending_line r \<le> smallest" using Cons.prems(1) by simp
  ultimately show ?case by simp
qed

lemma no_residual_overlap:
  "sorted_wrt (\<lambda>r other. ending_line other \<le> starting_line r) zs \<Longrightarrow> \<not> residual_overlap zs"
  by (cases zs) (simp_all add: no_residual_overlap_from)

text \<open>
  Claim C2 as stated fails in its first half: the ranges \<open>[0, 5)\<close> and \<open>[3, 3)\<close> have
  an empty intersection, and \<open>get_updated_file_lines\<close> raises on them.
\<close>

theorem get_updated_file_lines_insertion_inside_range_counterexample:
  "line_range \<lparr>starting_line = 0, ending_line = 5, new_lines = [''x'']\<rparr> \<inter>
   line_range \<lparr>starting_line = 3, ending_line = 3, new_lines = [''y'']\<rparr> = {} \<and>
   get_updated_file_lines
      \<lparr>file_path = ''a.py'',
       replacements =
         [\<lparr>starting_line = 0, ending_line = 5, new_lines = [''x'']\<rparr>,
          \<lparr>starting_line = 3, ending_line = 3, new_lines = [''y'']\<rparr>],
       is_creation = False, is_deletion = False, rename_file_path = None\<rparr>
      [''a'', ''b'', ''c'', ''d'', ''e''] = Inl MentatError"
  by (simp add: line_range_def get_updated_file_lines_def sort_replacements_def
      list_sort_reverse_def list_sort_def replacement_lt_def slice_to_def slice_from_def
      slice_index_def)

text \<open>
  Claim C2, amended. For every list of replacements with
  \<open>starting_line \<le> ending_line\<close> in which, of any two, one ends at or before the line
  where the other starts (their ranges do not intersect and no insertion point lies
  strictly inside another range), \<open>get_updated_file_lines\<close> succeeds. For every list
  with residual overlap after sorting (a replacement whose \<open>ending_line\<close> exceeds the
  smallest \<open>starting_line\<close> seen before it in the sorted order),
  \<open>get_updated_file_lines\<close> raises \<open>MentatError\<close> and returns no lines.
\<close>

theorem get_updated_file_lines_succeeds_or_raises:
  "((\<forall>r\<in>set (replacements fe). starting_line r \<le> ending_line r) \<and>
    (\<forall>i j. i < j \<and> j < length (replacements fe) \<longrightarrow>
       ending_line (replacements fe ! i) \<le> starting_line (replacements fe ! j) \<or>
       ending_line (replacements fe ! j) \<le> starting_line (replacements fe ! i))
    \<longrightarrow> (\<exists>out. get_updated_file_lines fe file_lines = Inr out)) \<and>
   (residual_overlap (sort_replacements (replacements fe))
    \<longrightarrow> get_updated_file_lines fe file_lines = Inl MentatError)"
proof (intro conjI impI)
  define zs where "zs = sort_replacements (replacements fe)"
  assume a: "(\<forall>r\<in>set (replacements fe). starting_line r \<le> ending_line r) \<and>
    (\<forall>i j. i < j \<and> j < length (replacements fe) \<longrightarrow>
       ending_line (replacements fe ! i) \<le> starting_line (replacements fe ! j) \<or>
       ending_line (replacements fe ! j) \<le> starting_line (replacements fe ! i))"
  then have "sorted_wrt (\<lambda>a b. \<not> overlap_conflict a b) (replacements fe)"
    unfolding sorted_wrt_iff_nth_less overlap_conflict_def by (metis not_less)
  then have nc: "sorted_wrt (\<lambda>a b. \<not> overlap_conflict a b) zs"
    unfolding zs_def by (rule no_conflict_sort_replacements)
  have wf: "\<forall>r\<in>set zs. starting_line r \<le> ending_line r"
    using a by (simp add: zs_def set_sort_replacements)
  have "sorted_wrt (\<lambda>r other. ending_line other \<le> starting_line r) zs"
    using no_conflict_chain[OF nc _ wf] sort_replacements_by_key[of "replacements fe"]
    by (simp add: zs_def)
  then have "successively (\<lambda>r other. ending_line other \<le> starting_line r) zs"
    by (rule successively_if_sorted_wrt)
  then have "\<exists>out. apply_replacements None file_lines zs = Inr out"
    unfolding apply_replacements_succeeds_iff by (simp split: list.splits)
  then show "\<exists>out. get_updated_file_lines fe file_lines = Inr out"
    by (simp add: get_updated_file_lines_def zs_def)
next
  define zs where "zs = sort_replacements (replacements fe)"
  assume "residual_overlap (sort_replacements (replacements fe))"
  then have ro: "residual_overlap zs" by (simp add: zs_def)
  have "\<not> successively (\<lambda>r other. ending_line other \<le> starting_line r) zs"
  proof
    assume "successively (\<lambda>r other. ending_line other \<le> starting_line r) zs"
    then have "sorted_wrt (\<lambda>r other. ending_line other \<le> starting_line r) zs"
      using chain_reaches_all sort_replacements_by_ending_line[of "replacements fe"]
      by (simp add: zs_def)
    then show False using ro no_residual_overlap by blast
  qed
  then have "\<not> (\<exists>out. apply_replacements None file_lines zs = Inr out)"
    unfolding apply_replacements_succeeds_iff by simp
  then obtain err where "apply_replacements None file_lines zs = Inl err"
    by (cases "apply_replacements None file_lines zs") auto
  then have "apply_replacements None file_lines zs = Inl MentatError"
    using apply_replacements_only_mentat_error by blast
  then show "get_updated_file_lines fe file_lines = Inl MentatError"
    by (simp add: get_updated_file_lines_def zs_def)
qed

theorem get_updated_file_lines_succeeds_or_raises_witness:
  "(\<exists>out. get_updated_file_lines
      \<lparr>file_path = ''a.py'',
       replacements =
         [\<lparr>starting_line = 0, ending_line = 2, new_lines = [''x'']\<rparr>,
          \<lparr>starting_line = 2, ending_line = 3, new_lines = [''y'']\<rparr>],
       is_creation = False, is_deletion = False, rename_file_path = None\<rparr>
      [''a'', ''b'', ''c''] = Inr out) \<and>
   get_updated_file_lines
      \<lparr>file_path = ''a.py'',
       replacements =
         [\<lparr>starting_line = 0, ending_line = 5, new_lines = [''x'']\<rparr>,
          \<lparr>starting_line = 3, ending_line = 8, new_lines = [''y'']\<rparr>],
       is_creation = False, is_deletion = False, rename_file_path = None\<rparr>
      [''a'', ''b'', ''c''] = Inl MentatError"
proof -
  have pairs: "i < j \<and> j < length [a, b] \<longrightarrow> P ([a, b] ! i) ([a, b] ! j)"
    if "P a b" for i j :: nat and a b :: replacement and P
    using that by (cases i; cases j) auto
  have disjoint:
    "(\<forall>r\<in>set [\<lparr>starting_line = 0, ending_line = 2, new_lines = [''x'']\<rparr>,
                \<lparr>starting_line = 2, ending_line = 3, new_lines = [''y'']\<rparr>].
        starting_line r \<le> ending_line r) \<and>
     (\<forall>i j. i < j \<and>
         j < length [\<lparr>starting_line = 0, ending_line = 2, new_lines = [''x'']\<rparr>,
                     \<lparr>starting_line = 2, ending_line = 3, new_lines = [''y'']\<rparr>] \<longrightarrow>
         ending_line ([\<lparr>starting_line = 0, ending_line = 2, new_lines = [''x'']\<rparr>,
                       \<lparr>starting_line = 2, ending_line = 3, new_lines = [''y'']\<rparr>] ! i)
           \<le> starting_line ([\<lparr>starting_line = 0, ending_line = 2, new_lines = [''x'']\<rparr>,
                       \<lparr>starting_line = 2, ending_line = 3, new_lines = [''y'']\<rparr>] ! j) \<or>
         ending_line ([\<lparr>starting_line = 0, ending_line = 2, new_lines = [''x'']\<rparr>,
                       \<lparr>starting_line = 2, ending_line = 3, new_lines = [''y'']\<rparr>] ! j)
           \<le> starting_line ([\<lparr>starting_line = 0, ending_line = 2, new_lines = [''x'']\<rparr>,
                       \<lparr>starting_line = 2, ending_line = 3, new_lines = [''y'']\<rparr>] ! i))"
    using pairs[of "\<lambda>a b. ending_line a \<le> starting_line b \<or> ending_line b \<le> starting_line a"
        "\<lparr>starting_line = 0, ending_line = 2, new_lines = [''x'']\<rparr>"
        "\<lparr>starting_line = 2, ending_line = 3, new_lines = [''y'']\<rparr>"]
    by simp
  have overlap:
    "residual_overlap (sort_replacements
        [\<lparr>starting_line = 0, ending_line = 5, new_lines = [''x'']\<rparr>,
         \<lparr>starting_line = 3, ending_line = 8, new_lines = [''y'']\<rparr>])"
    by (simp add: sort_replacements_def list_sort_reverse_def list_sort_def replacement_lt_def)
  show ?thesis
    using get_updated_file_lines_succeeds_or_raises
      [of "\<lparr>file_path = ''a.py'',
            replacements =
              [\<lparr>starting_line = 0, ending_line = 2, new_lines = [''x'']\<rparr>,
               \<lparr>starting_line = 2, ending_line = 3, new_lines = [''y'']\<rparr>],
            is_creation = False, is_deletion = False, rename_file_path = None\<rparr>"
          "[''a'', ''b'', ''c'']"]
      get_updated_file_lines_succeeds_or_raises
      [of "\<lparr>file_path = ''a.py'',
            replacements =
              [\<lparr>starting_line = 0, ending_line = 5, new_lines = [''x'']\<rparr>,
               \<lparr>starting_line = 3, ending_line = 8, new_lines = [''y'']\<rparr>],
            is_creation = False, is_deletion = False, rename_file_path = None\<rparr>"
          "[''a'', ''b'', ''c'']"]
      disjoint overlap
    by simp
qed

subsection \<open>A single insertion\<close>

lemma sort_replacements_single: "sort_replacements [r] = [r]"
  by (simp add: sort_replacements_def list_sort_reverse_def list_sort_def)

lemma slice_index_le: "slice_index n i \<le> n"
  by (auto simp: slice_index_def)

lemma mset_insert_at_slice:
  "mset (slice_to xs k @ new @ slice_from xs k) = mset xs + mset new"
proof -
  have "mset (take n xs) + mset (drop n xs) = mset xs" for n
    by (metis append_take_drop_id mset_append)
  then show ?thesis by (simp add: slice_to_def slice_from_def)
qed

lemma length_insert_at_slice:
  "length (slice_to xs k @ new @ slice_from xs k) = length xs + length new"
  using slice_index_le[of "length xs" k] by (simp add: slice_to_def slice_from_def)

lemma single_insertion_result:
  assumes "replacements fe = [r]" and "starting_line r = ending_line r"
  shows "get_updated_file_lines fe file_lines =
         Inr (let padded =
                    (if ending_line r > int (length file_lines)
                     then file_lines @
                          replicate (nat (ending_line r - int (length file_lines))) ''''
                     else file_lines)
              in slice_to padded (ending_line r) @ new_lines r @
                 slice_from padded (ending_line r))"
  using assms by (simp add: get_updated_file_lines_def sort_replacements_single Let_def)

text \<open>
  Claim C6 as stated fails: inserting one line at \<open>k = 3\<close> into a buffer of one line
  pads the buffer with two empty lines first, so the result has four lines, not two.
\<close>

theorem insertion_beyond_end_counterexample:
  "get_updated_file_lines
      \<lparr>file_path = ''a.py'',
       replacements = [\<lparr>starting_line = 3, ending_line = 3, new_lines = [''x'']\<rparr>],
       is_creation = False, is_deletion = False, rename_file_path = None\<rparr>
      [''a''] = Inr [''a'', '''', '''', ''x''] \<and>
   length [''a'', '''', '''', ''x''] \<noteq> length [''a''] + length [''x'']"
  by (simp add: get_updated_file_lines_def sort_replacements_single slice_to_def slice_from_def
      slice_index_def numeral_3_eq_3)

text \<open>
  Claim C6, amended. For every line buffer and every single insertion (\<open>starting_line\<close>
  = \<open>ending_line\<close> = \<open>k\<close>), \<open>get_updated_file_lines\<close> succeeds and removes no existing
  line (every line of the buffer is in the output, as often as it was in the buffer), and
  the length of the output is \<open>max (len buffer) k + len new_lines\<close>: the length of the
  buffer plus \<open>len new_lines\<close> when \<open>k\<close> is at most the length of the buffer, and
  \<open>k + len new_lines\<close> when the buffer is first padded with empty lines up to \<open>k\<close>.
\<close>

theorem insertion_keeps_lines_and_length:
  assumes "replacements fe = [r]" and "starting_line r = ending_line r"
  shows "\<exists>out. get_updated_file_lines fe file_lines = Inr out \<and>
           mset file_lines \<subseteq># mset out \<and>
           length out =
             max (length file_lines) (nat (ending_line r)) + length (new_lines r)"
proof -
  define padded where
    "padded = (if ending_line r > int (length file_lines)
               then file_lines @ replicate (nat (ending_line r - int (length file_lines))) ''''
               else file_lines)"
  define out where
    "out = slice_to padded (ending_line r) @ new_lines r @ slice_from padded (ending_line r)"
  have res: "get_updated_file_lines fe file_lines = Inr out"
    using single_insertion_result[OF assms, of file_lines] by (simp add: out_def padded_def Let_def)
  have len_padded: "length padded = max (length file_lines) (nat (ending_line r))"
    by (auto simp: padded_def)
  have "mset file_lines \<subseteq># mset padded"
    by (simp add: padded_def)
  moreover have "mset out = mset padded + mset (new_lines r)"
    unfolding out_def by (rule mset_insert_at_slice)
  ultimately have sub: "mset file_lines \<subseteq># mset out"
    by (simp add: subset_mset.add_increasing2)
  have "length out = length padded + length (new_lines r)"
    unfolding out_def by (rule length_insert_at_slice)
  then have len: "length out = max (length file_lines) (nat (ending_line r)) + length (new_lines r)"
    by (simp only: len_padded)
  show ?thesis using res sub len by blast
qed

theorem insertion_keeps_lines_and_length_witness:
  "get_updated_file_lines
      \<lparr>file_path = ''a.py'',
       replacements = [\<lparr>starting_line = 1, ending_line = 1, new_lines = [''x'', ''y'']\<rparr>],
       is_creation = False, is_deletion = False, rename_file_path = None\<rparr>
      [''a'', ''b'', ''c''] = Inr [''a'', ''x'', ''y'', ''b'', ''c'']"
  using insertion_keeps_lines_and_length
    [of "\<lparr>file_path = ''a.py'',
          replacements = [\<lparr>starting_line = 1, ending_line = 1, new_lines = [''x'', ''y'']\<rparr>],
          is_creation = False, is_deletion = False, rename_file_path = None\<rparr>"
        "\<lparr>starting_line = 1, ending_line = 1, new_lines = [''x'', ''y'']\<rparr>"
        "[''a'', ''b'', ''c'']"]
  by (simp add: get_updated_file_lines_def sort_replacements_single slice_to_def slice_from_def
      slice_index_def)

section \<open>The validity check\<close>




text \<open>
  Claim C8. For every \<open>FileEdit\<close> that passes the checks on its own path (a creation
  whose path does not exist, or an edit of an existing file that is in context) and whose
  \<open>rename_file_path\<close> is set to a path that exists, \<open>is_valid\<close> returns true and the
  edit it leaves is the given one with \<open>rename_file_path\<close> cleared: \<open>file_path\<close>,
  \<open>replacements\<close>, \<open>is_creation\<close> and \<open>is_deletion\<close> are unchanged.
\<close>

theorem is_valid_cancels_rename_to_existing_path:
  assumes "(is_creation fe \<and> \<not> path_exists env (file_path fe)) \<or>
           (\<not> is_creation fe \<and> path_exists env (file_path fe) \<and>
            relpath env (file_path fe) \<in> dom (context_file_lines env))"
    and "rename_file_path fe = Some p" and "path_exists env p"
  shows "is_valid env fe = (True, fe\<lparr>rename_file_path := None\<rparr>)"
  using assms by (auto simp: is_valid_def cancel_rename_to_existing_def domIff)

theorem is_valid_cancels_rename_to_existing_path_witness:
  "is_valid
      \<lparr>path_exists = (\<lambda>p. p = ''/r/a.py'' \<or> p = ''/r/b.py''), relpath = drop 3,
       context_file_lines = [''a.py'' \<mapsto> [''x'']]\<rparr>
      \<lparr>file_path = ''/r/a.py'',
       replacements = [\<lparr>starting_line = 0, ending_line = 1, new_lines = [''y'']\<rparr>],
       is_creation = False, is_deletion = False, rename_file_path = Some ''/r/b.py''\<rparr> =
     (True,
      \<lparr>file_path = ''/r/a.py'',
       replacements = [\<lparr>starting_line = 0, ending_line = 1, new_lines = [''y'']\<rparr>],
       is_creation = False, is_deletion = False, rename_file_path = None\<rparr>)"
  using is_valid_cancels_rename_to_existing_path
    [of "\<lparr>file_path = ''/r/a.py'',
          replacements = [\<lparr>starting_line = 0, ending_line = 1, new_lines = [''y'']\<rparr>],
          is_creation = False, is_deletion = False, rename_file_path = Some ''/r/b.py''\<rparr>"
        "\<lparr>path_exists = (\<lambda>p. p = ''/r/a.py'' \<or> p = ''/r/b.py''), relpath = drop 3,
          context_file_lines = [''a.py'' \<mapsto> [''x'']]\<rparr>"
        "''/r/b.py''"]
  by simp

section \<open>The review\<close>

text \<open>
  Claim C5 as stated fails: a deletion with a rename target and one replacement, reviewed
  by a user who declines the deletion and would accept everything else. The only prompt
  shown is the deletion prompt and the edit is not kept.
\<close>

theorem filter_replacements_declined_deletion_counterexample:
  "filter_replacements
      \<lparr>path_exists = (\<lambda>p. p = ''/r/a.py''), relpath = drop 3,
       context_file_lines = [''a.py'' \<mapsto> [''x'']]\<rparr>
      \<lparr>answers = (\<lambda>n. n \<noteq> 0), asked = []\<rparr>
      \<lparr>file_path = ''/r/a.py'',
       replacements = [\<lparr>starting_line = 0, ending_line = 1, new_lines = [''y'']\<rparr>],
       is_creation = False, is_deletion = True, rename_file_path = Some ''/r/b.py''\<rparr> =
     Inr (False,
          \<lparr>file_path = ''/r/a.py'',
           replacements = [\<lparr>starting_line = 0, ending_line = 1, new_lines = [''y'']\<rparr>],
           is_creation = False, is_deletion = True, rename_file_path = Some ''/r/b.py''\<rparr>,
          \<lparr>answers = (\<lambda>n. n \<noteq> 0), asked = [DeleteFile]\<rparr>)"
  by (simp add: filter_replacements_def filter_deletion_def ask_user_change_def)

text \<open>
  Claim C5, amended. For every \<open>FileEdit\<close> with \<open>is_deletion\<close> set (not a creation,
  its file in context), when the user declines the "delete file" prompt the review
  abandons the whole edit: \<open>filter_replacements\<close> returns false, it shows no rename
  prompt and no replacement prompt after the deletion prompt, and it leaves the edit as
  it was.
\<close>

theorem filter_replacements_declined_deletion:
  assumes "\<not> is_creation fe"
    and "context_file_lines env (relpath env (file_path fe)) = Some file_lines"
    and "is_deletion fe"
    and "\<not> answers ui (length (asked ui))"
  shows "filter_replacements env ui fe = Inr (False, fe, ui\<lparr>asked := asked ui @ [DeleteFile]\<rparr>)"
  using assms by (simp add: filter_replacements_def filter_deletion_def ask_user_change_def)

theorem filter_replacements_declined_deletion_witness:
  "filter_replacements
      \<lparr>path_exists = (\<lambda>p. p = ''/r/a.py''), relpath = drop 3,
       context_file_lines = [''a.py'' \<mapsto> [''x'']]\<rparr>
      \<lparr>answers = (\<lambda>n. False), asked = []\<rparr>
      \<lparr>file_path = ''/r/a.py'',
       replacements = [\<lparr>starting_line = 0, ending_line = 1, new_lines = [''y'']\<rparr>],
       is_creation = False, is_deletion = True, rename_file_path = None\<rparr> =
     Inr (False,
          \<lparr>file_path = ''/r/a.py'',
           replacements = [\<lparr>starting_line = 0, ending_line = 1, new_lines = [''y'']\<rparr>],
           is_creation = False, is_deletion = True, rename_file_path = None\<rparr>,
          \<lparr>answers = (\<lambda>n. False), asked = [DeleteFile]\<rparr>)"
  using filter_replacements_declined_deletion
    [of "\<lparr>file_path = ''/r/a.py'',
          replacements = [\<lparr>starting_line = 0, ending_line = 1, new_lines = [''y'']\<rparr>],
          is_creation = False, is_deletion = True, rename_file_path = None\<rparr>"
        "\<lparr>path_exists = (\<lambda>p. p = ''/r/a.py''), relpath = drop 3,
          context_file_lines = [''a.py'' \<mapsto> [''x'']]\<rparr>"
        "[''x'']"
        "\<lparr>answers = (\<lambda>n. False), asked = []\<rparr>"]
  by simp

section \<open>The streaming printer\<close>

text \<open>
  After \<open>wrap_it_up\<close>, \<open>add_string\<close> enqueues nothing, and the drain loop returns at
  its first shutdown test, whatever is queued.
\<close>

lemma add_string_after_wrap_it_up:
  "add_string colored string0 end_str color (wrap_it_up self) = Inr (wrap_it_up self)"
  by (simp add: add_string_def wrap_it_up_def)

lemma print_lines_shutdown: "shutdown self \<Longrightarrow> print_lines (self, sent) = Some (Inr (self, sent))"
  by (subst print_lines.simps) simp

text \<open>
  Claim C9. The claim: after \<open>wrap_it_up\<close> the drain loop goes on sending the queued
  characters until the queue is empty and only then exits. On the code, with \<open>h\<close> and
  \<open>i\<close> queued when \<open>wrap_it_up\<close> is called: \<open>print_lines\<close> meets the shutdown test at
  the top of the loop and returns at once; nothing is sent and both characters stay in
  the queue.
\<close>

theorem print_lines_after_wrap_it_up_leaves_backlog:
  "print_lines
     (wrap_it_up \<lparr>strings_to_print = [''h'', ''i''], chars_remaining = 2, shutdown = False\<rparr>,
      []) =
   Some (Inr (\<lparr>strings_to_print = [''h'', ''i''], chars_remaining = 2, shutdown = True\<rparr>, []))"
  by (subst print_lines.simps) (simp add: wrap_it_up_def)

text \<open>
  The counter and the queue move together: \<open>add_string\<close> adds the same number to both,
  \<open>popleft\<close> takes one from the queue and the decrement after the send takes one from
  the counter.
\<close>

lemma add_string_keeps_count:
  assumes "add_string colored string0 end_str color self = Inr self'"
  shows "chars_remaining self' - int (length (strings_to_print self')) =
         chars_remaining self - int (length (strings_to_print self))"
  using assms
  by (auto simp: add_string_def Let_def split: if_splits option.splits)

lemma popleft_keeps_count:
  assumes "popleft self = Some (next_string, self')"
  shows "chars_remaining self' = chars_remaining self"
    and "int (length (strings_to_print self')) = int (length (strings_to_print self)) - 1"
  using assms by (auto simp: popleft_def split: list.splits)

lemma dequeue_step_keeps_count:
  "chars_remaining (fst (dequeue_step (self, sent))) -
     int (length (strings_to_print (fst (dequeue_step (self, sent))))) =
   chars_remaining self - int (length (strings_to_print self))"
  by (auto simp: dequeue_step_def popleft_def count_sent_def split: list.splits)

lemma reachable_count:
  assumes "reachable colored state"
  shows "chars_remaining (fst state) =
         int (length (strings_to_print (fst state))) + (if snd state then 1 else 0)"
  using assms
proof (induction rule: reachable.induct)
  case reachable_init
  show ?case by (simp add: init_printer_def)
next
  case (reachable_add_string self sending string0 end_str color self')
  then show ?case using add_string_keeps_count[of colored string0 end_str color self self']
    by simp
next
  case (reachable_wrap_it_up self sending)
  then show ?case by (simp add: wrap_it_up_def)
next
  case (reachable_popleft self next_string self')
  then show ?case using popleft_keeps_count[of self next_string self'] by simp
next
  case (reachable_count_sent self)
  then show ?case by (simp add: count_sent_def)
qed

text \<open>
  The loop stays inside these states: one pass of \<open>dequeue_step\<close> from a reachable state
  is \<open>popleft\<close> followed by the decrement, and whenever \<open>print_lines\<close> returns from a
  reachable state it returns through the \<open>break\<close>, in a reachable state.
\<close>

lemma reachable_dequeue_step:
  assumes "reachable colored (self, False)" and "\<not> shutdown self"
  shows "reachable colored (fst (dequeue_step (self, sent)), False)"
proof (cases "popleft self")
  case None
  then show ?thesis using assms(1) by (simp add: dequeue_step_def)
next
  case (Some popped)
  obtain next_string self1 where popped: "popped = (next_string, self1)" by (cases popped)
  have "reachable colored (self1, True)"
    using reachable_popleft[OF assms] Some popped by simp
  then have "reachable colored (count_sent self1, False)"
    by (rule reachable_count_sent)
  then show ?thesis using Some popped by (simp add: dequeue_step_def)
qed

lemma sleep_time_no_zero_division:
  "chars_remaining self = int (length (strings_to_print self)) \<Longrightarrow>
   \<exists>seconds. sleep_time self = Inr seconds"
  by (simp add: sleep_time_def Let_def)

lemma print_lines_returns_reachable:
  assumes "print_lines state = Some r" and "reachable colored (fst state, False)"
  shows "\<exists>self' sent'. r = Inr (self', sent') \<and> shutdown self' \<and>
           reachable colored (self', False)"
proof -
  let ?P = "\<lambda>state r. reachable colored (fst state, False) \<longrightarrow>
              (\<exists>self' sent'. r = Inr (self', sent') \<and> shutdown self' \<and>
                 reachable colored (self', False))"
  have "?P state r"
  proof (rule print_lines.raw_induct[where P = ?P, OF _ assms(1)], goal_cases)
    case (1 print_lines' state r)
    show ?case
    proof
      assume reach: "reachable colored (fst state, False)"
      show "\<exists>self' sent'. r = Inr (self', sent') \<and> shutdown self' \<and>
              reachable colored (self', False)"
      proof (cases "shutdown (fst state)")
        case True
        then have "r = Inr state" using 1(2) by simp
        then show ?thesis using True reach by (cases state) auto
      next
        case False
        define state1 where "state1 = dequeue_step state"
        have reach1: "reachable colored (fst state1, False)"
          using reachable_dequeue_step[of colored "fst state" "snd state"] reach False
          by (simp add: state1_def)
        then obtain seconds where sl: "sleep_time (fst state1) = Inr seconds"
          using reachable_count[OF reach1] sleep_time_no_zero_division[of "fst state1"] by auto
        have "print_lines' state1 = Some r"
          using 1(2) False sl by (simp add: state1_def Let_def)
        then show ?thesis using 1(1) reach1 by blast
      qed
    qed
  qed
  then show ?thesis using assms(2) by blast
qed

text \<open>
  Claim C10. Starting from construction (both zero), every \<open>add_string\<close> call and every
  dequeue step of \<open>print_lines\<close> keeps \<open>chars_remaining\<close> equal to the length of the
  \<open>strings_to_print\<close> queue. In every state the printer can reach in which the drain task
  is not waiting inside \<open>stream.send\<close>: the two are equal; they are equal again after an
  \<open>add_string\<close> call and after a dequeue step (\<open>dequeue_step\<close>); the divisor
  \<open>chars_remaining + 1\<close> of \<open>sleep_time\<close> is the queue length plus one and not zero,
  so \<open>sleep_time\<close> does not raise, before or after the dequeue step; and whenever the
  loop of \<open>print_lines\<close> returns, it returns without an error and with the two equal.
\<close>

theorem chars_remaining_is_queue_length:
  assumes "reachable colored (self, False)"
  shows "chars_remaining self = int (length (strings_to_print self)) \<and>
         (\<forall>string0 end_str color self'.
            add_string colored string0 end_str color self = Inr self' \<longrightarrow>
            chars_remaining self' = int (length (strings_to_print self'))) \<and>
         (\<forall>sent. chars_remaining (fst (dequeue_step (self, sent))) =
                 int (length (strings_to_print (fst (dequeue_step (self, sent)))))) \<and>
         chars_remaining self + 1 = int (length (strings_to_print self)) + 1 \<and>
         chars_remaining self + 1 \<noteq> 0 \<and>
         sleep_time self \<noteq> Inl ZeroDivisionError \<and>
         (\<forall>sent. sleep_time (fst (dequeue_step (self, sent))) \<noteq> Inl ZeroDivisionError) \<and>
         (\<forall>sent r. print_lines (self, sent) = Some r \<longrightarrow>
            (\<exists>self' sent'. r = Inr (self', sent') \<and>
               chars_remaining self' = int (length (strings_to_print self'))))"
proof -
  have eq: "chars_remaining self = int (length (strings_to_print self))"
    using reachable_count[OF assms] by simp
  have add: "chars_remaining self' = int (length (strings_to_print self'))"
    if "add_string colored string0 end_str color self = Inr self'"
    for string0 end_str color self'
    using add_string_keeps_count[OF that] eq by simp
  have deq: "chars_remaining (fst (dequeue_step (self, sent))) =
      int (length (strings_to_print (fst (dequeue_step (self, sent)))))" for sent
    using dequeue_step_keeps_count[of self sent] eq by simp
  have nz: "chars_remaining self + 1 \<noteq> 0" using eq by linarith
  have st: "sleep_time self \<noteq> Inl ZeroDivisionError"
    using sleep_time_no_zero_division[OF eq] by auto
  have st_deq: "sleep_time (fst (dequeue_step (self, sent))) \<noteq> Inl ZeroDivisionError" for sent
    using sleep_time_no_zero_division[OF deq[of sent]] by auto
  have loop: "\<exists>self' sent'. r = Inr (self', sent') \<and>
      chars_remaining self' = int (length (strings_to_print self'))"
    if pl: "print_lines (self, sent) = Some r" for sent r
  proof -
    obtain self' sent' where r: "r = Inr (self', sent')" "reachable colored (self', False)"
      using print_lines_returns_reachable[of "(self, sent)" r colored] pl assms by auto
    then show ?thesis using reachable_count[OF r(2)] by simp
  qed
  have plus: "chars_remaining self + 1 = int (length (strings_to_print self)) + 1"
    using eq by simp
  show ?thesis using eq add deq plus nz st st_deq loop by blast
qed

theorem chars_remaining_is_queue_length_witness:
  "reachable (\<lambda>s c. s)
     (\<lparr>strings_to_print = [''i'', ''!''], chars_remaining = 2, shutdown = False\<rparr>, False) \<and>
   chars_remaining \<lparr>strings_to_print = [''i'', ''!''], chars_remaining = 2, shutdown = False\<rparr> =
   int (length (strings_to_print
     \<lparr>strings_to_print = [''i'', ''!''], chars_remaining = 2, shutdown = False\<rparr>)) \<and>
   fst (dequeue_step
     (\<lparr>strings_to_print = [''i'', ''!''], chars_remaining = 2, shutdown = False\<rparr>, [''h''])) =
   \<lparr>strings_to_print = [''!''], chars_remaining = 1, shutdown = False\<rparr> \<and>
   chars_remaining (fst (dequeue_step
     (\<lparr>strings_to_print = [''i'', ''!''], chars_remaining = 2, shutdown = False\<rparr>, [''h'']))) =
   int (length (strings_to_print (fst (dequeue_step
     (\<lparr>strings_to_print = [''i'', ''!''], chars_remaining = 2, shutdown = False\<rparr>, [''h'']))))) \<and>
   sleep_time \<lparr>strings_to_print = [''i'', ''!''], chars_remaining = 2, shutdown = False\<rparr> \<noteq>
   Inl ZeroDivisionError"
proof -
  have a: "reachable (\<lambda>s c. s)
     (\<lparr>strings_to_print = [''h'', ''i'', ''!''], chars_remaining = 3, shutdown = False\<rparr>, False)"
    by (rule reachable_add_string[OF reachable_init, of _ "''hi''" "''!''" None])
       (simp add: add_string_def init_printer_def Let_def)
  have b: "reachable (\<lambda>s c. s)
     (\<lparr>strings_to_print = [''i'', ''!''], chars_remaining = 3, shutdown = False\<rparr>, True)"
    by (rule reachable_popleft[OF a, of "''h''"]) (simp_all add: popleft_def)
  have c: "reachable (\<lambda>s c. s)
     (\<lparr>strings_to_print = [''i'', ''!''], chars_remaining = 2, shutdown = False\<rparr>, False)"
    using reachable_count_sent[OF b] by (simp add: count_sent_def)
  show ?thesis
    using c chars_remaining_is_queue_length[OF c]
    by (simp add: dequeue_step_def popleft_def count_sent_def)
qed

end
